theory Spec2Isabelle
  imports Main
begin

section \<open>Python values used by the Snail class\<close>

text \<open>
  Python strings are modelled as \<^typ>\<open>string\<close>; a character stands for a code point
  below 256.  Exceptions are values: a function that may raise returns
  \<open>exception + 'a\<close>, with \<open>Inl\<close> for the raised exception.
\<close>

datatype exception =
    ValueError string
  | AttributeError string
  | OSError string
  | OverflowError string
  | BackendError string

fun str_exc :: "exception \<Rightarrow> string" where
  "str_exc (ValueError m) = m"
| "str_exc (AttributeError m) = m"
| "str_exc (OSError m) = m"
| "str_exc (OverflowError m) = m"
| "str_exc (BackendError m) = m"

subsection \<open>Dictionaries\<close>

text \<open>
  A Python \<open>dict\<close> keeps its keys in insertion order; storing under a key that is
  already present replaces the value and leaves the key where it is.  The model is an
  association list in iteration order.
\<close>

type_synonym ('k, 'v) pydict = "('k \<times> 'v) list"

fun dict_setitem :: "('k, 'v) pydict \<Rightarrow> 'k \<Rightarrow> 'v \<Rightarrow> ('k, 'v) pydict" where
  "dict_setitem [] k v = [(k, v)]"
| "dict_setitem ((k', v') # d) k v =
     (if k' = k then (k', v) # d else (k', v') # dict_setitem d k v)"

definition dict_get :: "('k, 'v) pydict \<Rightarrow> 'k \<Rightarrow> 'v option" where
  "dict_get d k = map_of d k"

definition dict_items :: "('k, 'v) pydict \<Rightarrow> ('k \<times> 'v) list" where
  "dict_items d = d"

definition dict_keys :: "('k, 'v) pydict \<Rightarrow> 'k list" where
  "dict_keys d = map fst d"

definition dict_len :: "('k, 'v) pydict \<Rightarrow> nat" where
  "dict_len d = length d"

text \<open>\<open>dict(pairs)\<close>: the pairs are stored one after the other into an empty dict.\<close>

definition dict_of :: "('k \<times> 'v) list \<Rightarrow> ('k, 'v) pydict" where
  "dict_of ps = foldl (\<lambda>d (k, v). dict_setitem d k v) [] ps"

section \<open>Regular expressions as the \<open>re\<close> module runs them\<close>

text \<open>
  The one pattern of the source, \<^verbatim>\<open>\n\d+\.\s+(.*)\<close>, is a sequence of character
  classes, each taken once or under a greedy quantifier, with one capture group.
  The matcher below is a backtracking matcher: it lists the ways a pattern matches at
  the start of a string in the order in which \<open>re\<close> tries them (a greedy quantifier
  takes as many characters as it can and gives them back one at a time), so the first
  element of the list is the match \<open>re\<close> reports.
\<close>

definition NL :: char where
  "NL = CHR 0x0A"

datatype charclass = Lit char | Digit | Whitespace | AnyChar

text \<open>
  \<open>\d\<close> and \<open>\s\<close> on a \<open>str\<close> pattern are the Unicode decimal digits and the
  Unicode whitespace; below code point 256 these are \<open>0\<close> to \<open>9\<close> and the twelve
  characters listed.  \<open>.\<close> (without \<open>DOTALL\<close>) is any character but the newline.
\<close>

definition is_digit :: "char \<Rightarrow> bool" where
  "is_digit c = (let n = (of_char c :: nat) in 48 \<le> n \<and> n \<le> 57)"

definition is_space :: "char \<Rightarrow> bool" where
  "is_space c = (of_char c \<in> set [9, 10, 11, 12, 13, 28, 29, 30, 31, 32, 133, 160 :: nat])"

fun cls :: "charclass \<Rightarrow> char \<Rightarrow> bool" where
  "cls (Lit a) c = (c = a)"
| "cls Digit c = is_digit c"
| "cls Whitespace c = is_space c"
| "cls AnyChar c = (c \<noteq> NL)"

datatype atom = One charclass | Plus charclass | Star charclass

text \<open>
  \<open>greedy c s\<close>: what is left of \<open>s\<close> after \<open>c*\<close>, the longest run first, then one
  character fewer each time, down to nothing consumed.
\<close>

fun greedy :: "charclass \<Rightarrow> string \<Rightarrow> string list" where
  "greedy c [] = [[]]"
| "greedy c (x # xs) = (if cls c x then greedy c xs @ [x # xs] else [x # xs])"

fun atom_step :: "atom \<Rightarrow> string \<Rightarrow> string list" where
  "atom_step (One c) [] = []"
| "atom_step (One c) (x # xs) = (if cls c x then [xs] else [])"
| "atom_step (Star c) s = greedy c s"
| "atom_step (Plus c) [] = []"
| "atom_step (Plus c) (x # xs) = (if cls c x then greedy c xs else [])"

fun seq_match :: "atom list \<Rightarrow> string \<Rightarrow> string list" where
  "seq_match [] s = [s]"
| "seq_match (a # as) s = concat (map (seq_match as) (atom_step a s))"

text \<open>A pattern with exactly one capture group: \<open>before(group)after\<close>.\<close>

record pattern =
  before :: "atom list"
  capture :: "atom list"
  after :: "atom list"

text \<open>
  All matches at the start of \<open>s\<close>, as (captured text, rest of the string after the
  match), in the order of the backtracking search.
\<close>

definition match_all :: "pattern \<Rightarrow> string \<Rightarrow> (string \<times> string) list" where
  "match_all p s =
     concat (map (\<lambda>s1.
       concat (map (\<lambda>s2.
         map (\<lambda>s3. (take (length s1 - length s2) s1, s3)) (seq_match (after p) s2))
       (seq_match (capture p) s1)))
     (seq_match (before p) s))"

text \<open>The match that \<open>re\<close> reports at the start of \<open>s\<close>, if there is one.\<close>

definition first_match :: "pattern \<Rightarrow> string \<Rightarrow> (string \<times> string) option" where
  "first_match p s = (case match_all p s of [] \<Rightarrow> None | m # _ \<Rightarrow> Some m)"

lemma greedy_length: "r \<in> set (greedy c s) \<Longrightarrow> length r \<le> length s"
  by (induction s) (auto split: if_splits)

lemma atom_step_length: "r \<in> set (atom_step a s) \<Longrightarrow> length r \<le> length s"
  by (cases "(a, s)" rule: atom_step.cases) (auto split: if_splits dest: greedy_length)

lemma seq_match_length: "r \<in> set (seq_match as s) \<Longrightarrow> length r \<le> length s"
proof (induction as arbitrary: s)
  case Nil
  then show ?case by simp
next
  case (Cons a as)
  then obtain s' where "s' \<in> set (atom_step a s)" and "r \<in> set (seq_match as s')"
    by auto
  then show ?case
    using Cons.IH [of s'] atom_step_length [of s' a s] by simp
qed

lemma match_all_length: "(cap, r) \<in> set (match_all p s) \<Longrightarrow> length r \<le> length s"
  unfolding match_all_def
  by (auto dest!: seq_match_length)

text \<open>
  \<open>re.findall\<close> for a pattern with one group: the captured texts of the successive
  matches, scanning from the left.  After a match the scan goes on where the match
  ended; after an empty match the next match at the same place must not be empty
  (\<open>must_advance\<close>); where nothing matches the scan moves on by one character.
\<close>

function findall_from :: "pattern \<Rightarrow> bool \<Rightarrow> string \<Rightarrow> string list" where
  "findall_from p must_advance s =
     (case (if must_advance then filter (\<lambda>(cap, r). length r < length s) (match_all p s)
            else match_all p s) of
        [] \<Rightarrow> (case s of [] \<Rightarrow> [] | _ # xs \<Rightarrow> findall_from p False xs)
      | (cap, r) # _ \<Rightarrow> cap # findall_from p (length r = length s) r)"
  by pat_completeness auto
termination
proof (relation "measure (\<lambda>(p, m, s). 2 * length s + (if m then 0 else 1))", goal_cases)
  case 1
  then show ?case by simp
next
  case (2 p must_advance s x21 x22)
  then show ?case by simp
next
  case (3 p must_advance s x xs cap r)
  have mem: "(cap, r) \<in> set (if must_advance
      then filter (\<lambda>(cap, r). length r < length s) (match_all p s) else match_all p s)"
    using 3 by simp
  then have le: "length r \<le> length s"
    by (auto dest: match_all_length split: if_splits)
  from mem have "must_advance \<Longrightarrow> length r < length s"
    by auto
  with le show ?case by auto
qed

definition findall :: "pattern \<Rightarrow> string \<Rightarrow> string list" where
  "findall p s = findall_from p False s"

text \<open>\<open>str.rstrip()\<close>: the string without its trailing whitespace.\<close>

definition rstrip :: "string \<Rightarrow> string" where
  "rstrip s = rev (dropWhile is_space (rev s))"

section \<open>Listing extraction\<close>

text \<open>
  \<open>extract_listings\<close> (snail.py, lines 151 to 165):
  \<^verbatim>\<open>[quote.rstrip() for quote in re.findall(r'\n\d+\.\s+(.*)', listings)]\<close>
\<close>

definition marker_pattern :: pattern where
  "marker_pattern =
     \<lparr>before = [One (Lit NL), Plus Digit, One (Lit (CHR ''.'')), Plus Whitespace],
      capture = [Star AnyChar],
      after = []\<rparr>"

definition extract_listings :: "string \<Rightarrow> string list" where
  "extract_listings listings = map rstrip (findall marker_pattern listings)"

text \<open>
  The pattern read as the specification words it: at the start of \<open>s\<close> a newline,
  one or more digits, a period and one or more whitespace characters; the captured
  text is what follows that whitespace up to the next newline.  \<open>marker_head\<close> reads
  the marker up to its first whitespace character and returns what follows it.
\<close>

definition marker_head :: "string \<Rightarrow> string option" where
  "marker_head s =
     (case s of
        n # d # xs \<Rightarrow>
          (if n = NL \<and> is_digit d then
             (case dropWhile is_digit xs of
                p # w # ys \<Rightarrow> (if p = CHR ''.'' \<and> is_space w then Some ys else None)
              | _ \<Rightarrow> None)
           else None)
      | _ \<Rightarrow> None)"

definition spec_marker_at :: "string \<Rightarrow> (string \<times> string) option" where
  "spec_marker_at s =
     (case marker_head s of
        None \<Rightarrow> None
      | Some ys \<Rightarrow>
          (let line = dropWhile is_space ys
           in Some (takeWhile (\<lambda>c. c \<noteq> NL) line, dropWhile (\<lambda>c. c \<noteq> NL) line)))"

lemma spec_marker_at_shorter:
  assumes "spec_marker_at s = Some (cap, r)"
  shows "length r < length s"
proof -
  have le: "\<And>P (xs :: string). length (dropWhile P xs) \<le> length xs"
    by (simp add: length_dropWhile_le)
  from assms obtain ys where mh: "marker_head s = Some ys"
    and r: "r = dropWhile (\<lambda>c. c \<noteq> NL) (dropWhile is_space ys)"
    by (auto simp: spec_marker_at_def Let_def split: option.splits)
  from mh obtain n d xs p w where s: "s = n # d # xs"
    and dw: "dropWhile is_digit xs = p # w # ys"
    by (auto simp: marker_head_def split: list.splits if_splits)
  have "length r \<le> length ys" unfolding r
    using le [of "\<lambda>c. c \<noteq> NL" "dropWhile is_space ys"] le [of is_space ys] by linarith
  moreover have "length ys < length (dropWhile is_digit xs)" by (simp add: dw)
  moreover have "length (dropWhile is_digit xs) \<le> length xs" by (rule le)
  ultimately show ?thesis by (simp add: s)
qed

text \<open>
  The scan of the specification: the non-overlapping occurrences of the marker from
  left to right, each giving its captured text.
\<close>

function spec_scan :: "string \<Rightarrow> string list" where
  "spec_scan s =
     (case spec_marker_at s of
        None \<Rightarrow> (case s of [] \<Rightarrow> [] | _ # xs \<Rightarrow> spec_scan xs)
      | Some (cap, r) \<Rightarrow> cap # spec_scan r)"
  by pat_completeness auto
termination
  by (relation "measure length") (auto dest: spec_marker_at_shorter)

text \<open>
  The reading of the marker as a pattern that stays on one line: a line of the text
  that follows a newline, made of digits, a period, whitespace and a payload.
  \<open>py_split\<close> is \<open>str.split(sep)\<close> for a separator of one character.
\<close>

fun py_split :: "char \<Rightarrow> string \<Rightarrow> string list" where
  "py_split sep [] = [[]]"
| "py_split sep (c # cs) =
     (if c = sep then [] # py_split sep cs
      else (case py_split sep cs of [] \<Rightarrow> [[c]] | l # ls \<Rightarrow> (c # l) # ls))"

definition payload_of_marker_line :: "string \<Rightarrow> string option" where
  "payload_of_marker_line l =
     (case marker_head (NL # l) of
        None \<Rightarrow> None
      | Some ys \<Rightarrow> Some (rstrip (dropWhile is_space ys)))"

definition taken_from_marker_line :: "string \<Rightarrow> bool" where
  "taken_from_marker_line t =
     list_all (\<lambda>x. list_ex (\<lambda>l. payload_of_marker_line l = Some x) (tl (py_split NL t)))
       (extract_listings t)"

section \<open>The generation backend\<close>

text \<open>
  The generative model is an external service: a call takes a request and the state
  of the outside world and either raises or returns a response.  What the methods
  print and how long they sleep is recorded as a list of events.
\<close>

record response =
  resp_text :: string
  usage_metadata :: string

record request =
  req_model :: string
  req_contents :: string
  req_system_instruction :: string
  req_tools :: "string list"
  req_response_modalities :: "string list"
  req_max_output_tokens :: "int option"

type_synonym 'w backend = "request \<Rightarrow> 'w \<Rightarrow> (exception + response) \<times> 'w"

datatype event = Print string | Sleep int

text \<open>The fields of a \<open>Snail\<close> object.\<close>

record snail =
  google_api_key :: string
  model_id :: string
  role :: string
  user_query :: string
  max_output_tokens :: int
  system_instruction_google_search :: string
  system_instruction_cot :: string

text \<open>
  \<open>time.sleep\<close> first converts the length to nanoseconds in a signed 64-bit
  integer and raises \<open>OverflowError\<close> when it does not fit; it then raises
  \<open>ValueError\<close> on a negative length.
\<close>

definition time_sleep :: "int \<Rightarrow> exception + event" where
  "time_sleep secs =
     (if secs * 1000000000 < - (2 ^ 63) \<or> 2 ^ 63 - 1 < secs * 1000000000 then
        Inl (OverflowError ''timestamp too large to convert to C _PyTime_t'')
      else if secs < 0 then Inl (ValueError ''sleep length must be non-negative'')
      else Inr (Sleep secs))"

text \<open>
  \<open>if response:\<close> tests the truth value of the response object; a response object
  defines neither \<open>__bool__\<close> nor \<open>__len__\<close>, so it is true.
\<close>

definition truthy :: "response \<Rightarrow> bool" where
  "truthy r = True"

subsection \<open>\<open>searching\<close> (snail.py, lines 129 to 149)\<close>

definition search_request :: "snail \<Rightarrow> request" where
  "search_request self =
     \<lparr>req_model = model_id self,
      req_contents = user_query self,
      req_system_instruction = system_instruction_google_search self,
      req_tools = [''google_search''],
      req_response_modalities = [''TEXT''],
      req_max_output_tokens = Some (max_output_tokens self)\<rparr>"

text \<open>
  The \<open>except\<close> branch prints and falls off the end of the function, which returns
  \<open>None\<close>.  The result is \<open>Inl e\<close> if the call raises \<open>e\<close> to its caller and
  \<open>Inr v\<close> if it returns \<open>v\<close>.
\<close>

definition searching ::
  "'w backend \<Rightarrow> snail \<Rightarrow> 'w \<Rightarrow> (exception + string option) \<times> event list \<times> 'w" where
  "searching backend self w =
     (case backend (search_request self) w of
        (Inr response, w') \<Rightarrow> (Inr (Some (resp_text response)), [], w')
      | (Inl e, w') \<Rightarrow>
          (Inr None, [Print (''Error occurred while searching: '' @ str_exc e)], w'))"

subsection \<open>\<open>get_cot_result\<close> (snail.py, lines 167 to 198)\<close>

definition cot_request :: "snail \<Rightarrow> string \<Rightarrow> request" where
  "cot_request self data =
     \<lparr>req_model = model_id self,
      req_contents = data,
      req_system_instruction = system_instruction_cot self,
      req_tools = [],
      req_response_modalities = [],
      req_max_output_tokens = None\<rparr>"

definition cot_report :: "string \<Rightarrow> response \<Rightarrow> string" where
  "cot_report data response =
     replicate 140 (CHR ''#'') @ ''\<newline>\<newline>Data: '' @ data @
     ''\<newline>\<newline>Response: '' @ resp_text response @
     ''\<newline>\<newline>Usage tokens: '' @ usage_metadata response @
     ''\<newline>'' @ replicate 140 (CHR ''#'')"

definition cot_error :: "string \<Rightarrow> exception \<Rightarrow> string" where
  "cot_error data e =
     ''Error occurred while processing data '' @ [CHR 0x27] @ data @ [CHR 0x27] @
     '': '' @ str_exc e"

text \<open>
  One turn of the loop.  The body of the \<open>try\<close> is the backend call, the append, the
  report and the sleep, in this order; an exception raised by any of them ends the
  body and is printed by the \<open>except\<close> branch.
\<close>

definition cot_item ::
  "'w backend \<Rightarrow> snail \<Rightarrow> int \<Rightarrow> string list \<times> event list \<times> 'w \<Rightarrow> string \<Rightarrow>
   string list \<times> event list \<times> 'w" where
  "cot_item backend self delay st data =
     (case st of (results, out, w) \<Rightarrow>
        (case backend (cot_request self data) w of
           (Inl e, w') \<Rightarrow> (results, out @ [Print (cot_error data e)], w')
         | (Inr response, w') \<Rightarrow>
             (let results' = (if truthy response then results @ [resp_text response]
                              else results);
                  out' = out @ [Print (cot_report data response)]
              in (case time_sleep delay of
                    Inl e \<Rightarrow> (results', out' @ [Print (cot_error data e)], w')
                  | Inr pause \<Rightarrow> (results', out' @ [pause], w')))))"

definition get_cot_result ::
  "'w backend \<Rightarrow> snail \<Rightarrow> string list \<Rightarrow> int \<Rightarrow> 'w \<Rightarrow> string list \<times> event list \<times> 'w" where
  "get_cot_result backend self datas delay w =
     foldl (cot_item backend self delay) ([], [], w) datas"

text \<open>
  What the backend answers to the items of a batch, one call after the other, each on
  the world the call before left.
\<close>

fun cot_outcomes ::
  "'w backend \<Rightarrow> snail \<Rightarrow> string list \<Rightarrow> 'w \<Rightarrow> (exception + response) list" where
  "cot_outcomes backend self [] w = []"
| "cot_outcomes backend self (data # datas) w =
     (case backend (cot_request self data) w of
        (r, w') \<Rightarrow> r # cot_outcomes backend self datas w')"

fun successes :: "(exception + response) list \<Rightarrow> string list" where
  "successes [] = []"
| "successes (Inl e # rs) = successes rs"
| "successes (Inr response # rs) = resp_text response # successes rs"

section \<open>Dataset assembly\<close>

text \<open>
  \<open>create_ds\<close> (snail.py, lines 200 to 217).  \<open>zip\<close> stops at the shorter list in
  Python as in HOL; the length test comes first, as in the source.
\<close>

definition length_mismatch :: exception where
  "length_mismatch = ValueError ''Instruction and output must be the same length''"

definition create_ds :: "string list \<Rightarrow> string list \<Rightarrow> exception + (string, string) pydict" where
  "create_ds instruction output =
     (if length instruction \<noteq> length output then Inl length_mismatch
      else Inr (dict_of (zip instruction output)))"

text \<open>
  \<open>transform_alpaca_format\<close> (snail.py, lines 219 to 249).  A flat record is the
  dict with the keys \<open>instruction\<close>, \<open>input\<close> and \<open>output\<close>, in this order.
\<close>

record alpaca =
  alpaca_instruction :: string
  alpaca_input :: string
  alpaca_output :: string

text \<open>
  \<open>datetime.now().strftime("%Y%m%d_%H%M%S")\<close>: the fields of the current time as
  decimal numbers padded with zeros, the year on four digits, the others on two.
\<close>

record datetime =
  year :: nat
  month :: nat
  day :: nat
  hour :: nat
  minute :: nat
  second :: nat

definition digit_char :: "nat \<Rightarrow> char" where
  "digit_char d = ''0123456789'' ! (d mod 10)"

definition zero_pad :: "nat \<Rightarrow> nat \<Rightarrow> string" where
  "zero_pad width n = map (\<lambda>i. digit_char (n div 10 ^ i)) (rev [0..<width])"

definition strftime :: "datetime \<Rightarrow> string" where
  "strftime t =
     zero_pad 4 (year t) @ zero_pad 2 (month t) @ zero_pad 2 (day t) @ ''_'' @
     zero_pad 2 (hour t) @ zero_pad 2 (minute t) @ zero_pad 2 (second t)"

text \<open>
  The file system: which paths can be opened for writing, and what has been written.
  The content of a written file is kept as the value that \<open>json.dump\<close> serialised.
\<close>

record filesystem =
  can_write :: "string \<Rightarrow> bool"
  files :: "string \<Rightarrow> alpaca list option"

definition output_file :: "datetime \<Rightarrow> string" where
  "output_file now = ''transformed_qa_'' @ strftime now @ ''.json''"

definition transformed_data :: "(string, string) pydict \<Rightarrow> alpaca list" where
  "transformed_data dataset =
     foldl (\<lambda>acc (k, v). acc @ [\<lparr>alpaca_instruction = k, alpaca_input = [], alpaca_output = v\<rparr>])
       [] (dict_items dataset)"

definition transform_alpaca_format ::
  "(string, string) pydict \<Rightarrow> datetime \<Rightarrow> filesystem \<Rightarrow>
   (exception + string \<times> alpaca list) \<times> filesystem" where
  "transform_alpaca_format dataset now fs =
     (let data = transformed_data dataset;
          name = output_file now
      in if can_write fs name
         then (Inr (name, data), fs\<lparr>files := (files fs)(name \<mapsto> data)\<rparr>)
         else (Inl (OSError name), fs))"

section \<open>Publishing\<close>

text \<open>
  \<open>push_to_hf\<close> (snail.py, lines 251 to 283).  The hosting service is external: each
  of its operations takes the state of the service and either raises or returns.
  \<open>card_push_to_hub\<close> stands for building the \<open>DatasetCard\<close> from its content and
  pushing it; \<open>load_dataset\<close> reads the JSON file at the given path.
\<close>

record ('h, 'd) hub =
  create_repo :: "string \<Rightarrow> 'h \<Rightarrow> (exception + string) \<times> 'h"
  card_push_to_hub :: "string \<Rightarrow> string \<Rightarrow> 'h \<Rightarrow> (exception + unit) \<times> 'h"
  load_dataset :: "string \<Rightarrow> 'h \<Rightarrow> (exception + 'd) \<times> 'h"
  dataset_push_to_hub :: "'d \<Rightarrow> string \<Rightarrow> 'h \<Rightarrow> (exception + unit) \<times> 'h"

definition dataset_card :: "string \<Rightarrow> string" where
  "dataset_card username =
     ''---\<newline>license: apache-2.0\<newline>language:\<newline>- en\<newline>task_categories:\<newline>'' @
     ''- text-generation\<newline>size_categories:\<newline>- n<1K\<newline>---\<newline>\<newline>'' @
     ''# Uploaded dataset\<newline>\<newline>- **Developed by:** '' @ username @
     ''\<newline>- **License:** apache-2.0\<newline>\<newline># Made with Snail\<newline>\<newline>'' @
     ''[<img src='' @ [CHR 0x22] @
     ''https://raw.githubusercontent.com/ioscbasotcstw/Snail/main/snail_mascot.png'' @
     [CHR 0x22] @ '' width='' @ [CHR 0x22] @ ''200'' @ [CHR 0x22] @
     ''/>](https://github.com/ioscbasotcstw/Snail)\<newline>''"

text \<open>\<open>username, _ = repo_id.split('/')\<close> raises unless there are exactly two parts.\<close>

definition unpack_two :: "string list \<Rightarrow> exception + string \<times> string" where
  "unpack_two parts =
     (case parts of
        [a, b] \<Rightarrow> Inr (a, b)
      | [] \<Rightarrow> Inl (ValueError ''not enough values to unpack (expected 2, got 0)'')
      | [a] \<Rightarrow> Inl (ValueError ''not enough values to unpack (expected 2, got 1)'')
      | _ \<Rightarrow> Inl (ValueError ''too many values to unpack (expected 2)''))"

text \<open>
  Sequencing inside a \<open>try\<close> body: the first statement that raises ends the body, and
  the state reached so far stays.
\<close>

definition and_then ::
  "('h \<Rightarrow> (exception + 'a) \<times> 'h) \<Rightarrow> ('a \<Rightarrow> 'h \<Rightarrow> (exception + 'b) \<times> 'h) \<Rightarrow>
   'h \<Rightarrow> (exception + 'b) \<times> 'h" where
  "and_then m f h = (case m h of (Inl e, h') \<Rightarrow> (Inl e, h') | (Inr x, h') \<Rightarrow> f x h')"

definition pure_step :: "exception + 'a \<Rightarrow> 'h \<Rightarrow> (exception + 'a) \<times> 'h" where
  "pure_step r h = (r, h)"

definition publish_body ::
  "('h, 'd) hub \<Rightarrow> string \<Rightarrow> string \<Rightarrow> 'h \<Rightarrow> (exception + string) \<times> 'h" where
  "publish_body hf json_path repo_id =
     and_then (create_repo hf repo_id) (\<lambda>url.
     and_then (pure_step (unpack_two (py_split (CHR ''/'') repo_id))) (\<lambda>(username, _).
     and_then (card_push_to_hub hf (dataset_card username) repo_id) (\<lambda>_.
     and_then (load_dataset hf json_path) (\<lambda>dataset.
     and_then (dataset_push_to_hub hf dataset repo_id) (\<lambda>_.
     pure_step (Inr url))))))"

definition push_to_hf ::
  "('h, 'd) hub \<Rightarrow> string \<Rightarrow> string \<Rightarrow> 'h \<Rightarrow> (exception + unit) \<times> event list \<times> 'h" where
  "push_to_hf hf json_path repo_id h =
     (if json_path = [] then
        (Inl (ValueError ''The JSON file path must be provided and cannot be empty.''), [], h)
      else if repo_id = [] then
        (Inl (ValueError ''The repository ID must be provided and cannot be empty.''), [], h)
      else
        (case publish_body hf json_path repo_id h of
           (Inr url, h') \<Rightarrow>
             (Inr (), [Print (''Congratulations on creating a new dataset '' @ url)], h')
         | (Inl e, h') \<Rightarrow>
             (Inr (), [Print (''Error occurred while pushing dataset: '' @ str_exc e)], h')))"

section \<open>Example inputs\<close>

text \<open>
  Concrete inputs at which the properties below are evaluated: a \<open>Snail\<close> object
  with the values of the example script, a backend that fails on the item \<open>a\<close> and
  answers every other item, a hosting service that is offline, a time and a file
  system in which every path can be written.
\<close>

definition example_snail :: snail where
  "example_snail =
     \<lparr>google_api_key = ''key'',
      model_id = ''gemini-2.0-flash-thinking-exp-01-21'',
      role = ''theoretical physicist'',
      user_query = ''List 3 hard problems in physics, list them'',
      max_output_tokens = 2048,
      system_instruction_google_search = ''You are theoretical physicist expert'',
      system_instruction_cot = ''You are a theoretical physicist expert''\<rparr>"

definition quota_backend :: "unit backend" where
  "quota_backend req u =
     (if req_contents req = ''a'' then (Inl (BackendError ''quota exceeded''), u)
      else (Inr \<lparr>resp_text = ''<answer>'' @ req_contents req @ ''</answer>'',
                 usage_metadata = ''7''\<rparr>, u))"

definition offline_hub :: "(unit, unit) hub" where
  "offline_hub =
     \<lparr>create_repo = (\<lambda>repo_id h. (Inl (BackendError ''offline''), h)),
      card_push_to_hub = (\<lambda>content repo_id h. (Inl (BackendError ''offline''), h)),
      load_dataset = (\<lambda>json_path h. (Inl (BackendError ''offline''), h)),
      dataset_push_to_hub = (\<lambda>dataset repo_id h. (Inl (BackendError ''offline''), h))\<rparr>"

definition example_now :: datetime where
  "example_now = \<lparr>year = 2025, month = 3, day = 4, hour = 5, minute = 6, second = 7\<rparr>"

definition empty_fs :: filesystem where
  "empty_fs = \<lparr>can_write = (\<lambda>path. True), files = (\<lambda>path. None)\<rparr>"

text \<open>Storing a list of pairs into a dict that already has entries.\<close>

definition dict_update_all :: "('k, 'v) pydict \<Rightarrow> ('k \<times> 'v) list \<Rightarrow> ('k, 'v) pydict" where
  "dict_update_all d ps = foldl (\<lambda>d (k, v). dict_setitem d k v) d ps"

section \<open>Properties\<close>

subsection \<open>The backtracking matcher on the marker pattern\<close>

lemma greedy_shape:
  "\<exists>rest. greedy c s = dropWhile (cls c) s # rest \<and> (\<forall>r\<in>set rest. r \<noteq> [] \<and> cls c (hd r))"
  by (induction s) auto

lemma concat_map_all_Nil: "(\<forall>x\<in>set xs. f x = []) \<Longrightarrow> concat (map f xs) = []"
  by (induction xs) auto

lemma seq_match_One:
  "seq_match (One c # as) s = (case s of [] \<Rightarrow> [] | x # xs \<Rightarrow> if cls c x then seq_match as xs else [])"
  by (cases s) simp_all

lemma seq_match_Plus_One:
  assumes disj: "\<And>x. cls c x \<Longrightarrow> \<not> cls d x"
  shows "seq_match (Plus c # One d # as) s =
     (case s of [] \<Rightarrow> []
      | x # xs \<Rightarrow> if cls c x then seq_match (One d # as) (dropWhile (cls c) xs) else [])"
proof (cases s)
  case Nil
  then show ?thesis by simp
next
  case (Cons x xs)
  show ?thesis
  proof (cases "cls c x")
    case False
    with Cons show ?thesis by simp
  next
    case True
    obtain rest where g: "greedy c xs = dropWhile (cls c) xs # rest"
      and r: "\<forall>r\<in>set rest. r \<noteq> [] \<and> cls c (hd r)"
      using greedy_shape by blast
    have "\<forall>r\<in>set rest. seq_match (One d # as) r = []"
    proof
      fix r assume "r \<in> set rest"
      with r obtain y ys where "r = y # ys" "cls c y" by (cases r) auto
      then show "seq_match (One d # as) r = []" using disj by simp
    qed
    then have "concat (map (seq_match (One d # as)) rest) = []"
      by (rule concat_map_all_Nil)
    with Cons True g show ?thesis by simp
  qed
qed

lemma seq_match_single: "seq_match [a] s = atom_step a s"
proof -
  have "seq_match [] = (\<lambda>s. [s])" by (rule ext) simp
  then show ?thesis by simp
qed

lemma seq_match_digits_dot:
  "seq_match (Plus Digit # One (Lit (CHR ''.'')) # as) s =
     (case s of [] \<Rightarrow> []
      | x # xs \<Rightarrow> if is_digit x
          then seq_match (One (Lit (CHR ''.'')) # as) (dropWhile is_digit xs) else [])"
proof -
  have cd: "cls Digit = is_digit" by (rule ext) simp
  have "\<And>x. cls Digit x \<Longrightarrow> \<not> cls (Lit (CHR ''.'')) x"
    by (auto simp: is_digit_def)
  from seq_match_Plus_One [of Digit "Lit (CHR ''.'')" as s, OF this]
  show ?thesis unfolding cd .
qed

lemma seq_match_dot_spaces:
  "seq_match [One (Lit (CHR ''.'')), Plus Whitespace] t =
     (case t of
        p # w # ys \<Rightarrow> (if p = CHR ''.'' \<and> is_space w then greedy Whitespace ys else [])
      | _ \<Rightarrow> [])"
proof (cases t)
  case Nil
  then show ?thesis by simp
next
  case t: (Cons p u)
  show ?thesis
  proof (cases u)
    case Nil
    with t show ?thesis by simp
  next
    case (Cons w ys)
    with t show ?thesis
      by (simp add: seq_match_One seq_match_single del: seq_match.simps)
  qed
qed

lemma before_marker:
  "seq_match (before marker_pattern) s =
     (case marker_head s of None \<Rightarrow> [] | Some ys \<Rightarrow> greedy Whitespace ys)"
proof -
  have "seq_match (before marker_pattern) s =
      (case s of [] \<Rightarrow> []
       | n # t \<Rightarrow> if n = NL
           then seq_match [Plus Digit, One (Lit (CHR ''.'')), Plus Whitespace] t else [])"
    by (simp add: marker_pattern_def seq_match_One del: seq_match.simps split: list.split)
  also have "\<dots> = (case marker_head s of None \<Rightarrow> [] | Some ys \<Rightarrow> greedy Whitespace ys)"
    by (simp add: marker_head_def seq_match_digits_dot seq_match_dot_spaces
        del: seq_match.simps dropWhile_eq_Nil_conv split: list.split)
  finally show ?thesis .
qed

lemma take_diff_dropWhile: "take (length s - length (dropWhile P s)) s = takeWhile P s"
proof -
  have "length (takeWhile P s) + length (dropWhile P s) = length s"
    by (metis length_append takeWhile_dropWhile_id)
  then have "length s - length (dropWhile P s) = length (takeWhile P s)" by simp
  then show ?thesis by (simp add: takeWhile_eq_take [symmetric])
qed

lemma match_all_marker_Nil:
  "seq_match (before marker_pattern) s = [] \<Longrightarrow> match_all marker_pattern s = []"
  by (simp add: match_all_def)

lemma match_all_marker_greedy:
  assumes "seq_match (before marker_pattern) s = greedy Whitespace ys"
  shows "\<exists>rest. match_all marker_pattern s =
     (takeWhile (\<lambda>c. c \<noteq> NL) (dropWhile is_space ys),
      dropWhile (\<lambda>c. c \<noteq> NL) (dropWhile is_space ys)) # rest"
proof -
  have cw: "cls Whitespace = is_space" by (rule ext) simp
  have ca: "cls AnyChar = (\<lambda>c. c \<noteq> NL)" by (rule ext) simp
  obtain r1 where g1: "greedy Whitespace ys = dropWhile is_space ys # r1"
    using greedy_shape [of Whitespace ys] unfolding cw by blast
  obtain r2 where g2: "greedy AnyChar (dropWhile is_space ys) =
      dropWhile (\<lambda>c. c \<noteq> NL) (dropWhile is_space ys) # r2"
    using greedy_shape [of AnyChar "dropWhile is_space ys"] unfolding ca by blast
  have grp: "seq_match (capture marker_pattern) = greedy AnyChar"
    by (rule ext) (simp add: marker_pattern_def seq_match_single del: seq_match.simps)
  have aft: "seq_match (after marker_pattern) = (\<lambda>s. [s])"
    by (rule ext) (simp add: marker_pattern_def)
  show ?thesis
    unfolding match_all_def assms grp aft g1
    by (simp add: g2 take_diff_dropWhile)
qed

lemma first_match_marker: "first_match marker_pattern s = spec_marker_at s"
proof (cases "marker_head s")
  case None
  then have "seq_match (before marker_pattern) s = []"
    by (simp add: before_marker)
  with None show ?thesis
    by (simp add: first_match_def match_all_marker_Nil spec_marker_at_def)
next
  case (Some ys)
  then have "seq_match (before marker_pattern) s = greedy Whitespace ys"
    by (simp add: before_marker)
  from match_all_marker_greedy [OF this] obtain rest where
    "match_all marker_pattern s =
      (takeWhile (\<lambda>c. c \<noteq> NL) (dropWhile is_space ys),
       dropWhile (\<lambda>c. c \<noteq> NL) (dropWhile is_space ys)) # rest"
    by blast
  with Some show ?thesis
    by (simp add: first_match_def spec_marker_at_def Let_def)
qed

declare findall_from.simps [simp del]
declare spec_scan.simps [simp del]

lemma findall_from_marker: "findall_from marker_pattern False s = spec_scan s"
proof (induction s rule: spec_scan.induct)
  case (1 s)
  show ?case
  proof (cases "spec_marker_at s")
    case None
    then have "match_all marker_pattern s = []"
      using first_match_marker [of s] by (simp add: first_match_def split: list.splits)
    show ?thesis
    proof (cases s)
      case Nil
      with None \<open>match_all marker_pattern s = []\<close> show ?thesis
        by (subst findall_from.simps, subst spec_scan.simps) simp
    next
      case (Cons x xs)
      with None 1(1) [of x xs] have "findall_from marker_pattern False xs = spec_scan xs"
        by simp
      with Cons None \<open>match_all marker_pattern s = []\<close> show ?thesis
        by (subst findall_from.simps, subst spec_scan.simps) simp
    qed
  next
    case (Some m)
    obtain cap r where m: "m = (cap, r)" by (cases m)
    with Some have "first_match marker_pattern s = Some (cap, r)"
      by (simp add: first_match_marker)
    then obtain rest where ma: "match_all marker_pattern s = (cap, r) # rest"
      by (auto simp: first_match_def split: list.splits)
    have lt: "length r < length s"
      using Some m by (auto dest: spec_marker_at_shorter)
    have "findall_from marker_pattern False r = spec_scan r"
      using 1(2) Some m by simp
    with Some m ma lt show ?thesis
      by (subst findall_from.simps, subst spec_scan.simps) simp
  qed
qed


lemma marker_head_decomp:
  assumes "marker_head s = Some ys"
  shows "\<exists>ds w. s = NL # ds @ CHR ''.'' # w # ys \<and> ds \<noteq> [] \<and> list_all is_digit ds \<and> is_space w"
proof -
  from assms obtain d xs w where s: "s = NL # d # xs" and d: "is_digit d"
    and dw: "dropWhile is_digit xs = CHR ''.'' # w # ys" and w: "is_space w"
    by (auto simp: marker_head_def split: list.splits if_splits)
  have "xs = takeWhile is_digit xs @ CHR ''.'' # w # ys"
    using takeWhile_dropWhile_id [of is_digit xs] dw by simp
  then have "s = NL # (d # takeWhile is_digit xs) @ CHR ''.'' # w # ys"
    using s by simp
  moreover have "list_all is_digit (d # takeWhile is_digit xs)"
    using d by (auto simp: list_all_iff dest: set_takeWhileD)
  ultimately show ?thesis using w by blast
qed

lemma spec_marker_at_decomp:
  assumes "spec_marker_at s = Some (cap, r)"
  shows "\<exists>ds ws. s = NL # ds @ CHR ''.'' # ws @ cap @ r \<and> ds \<noteq> [] \<and> list_all is_digit ds \<and>
           ws \<noteq> [] \<and> list_all is_space ws \<and> NL \<notin> set cap \<and> (r = [] \<or> hd r = NL)"
proof -
  from assms obtain ys where mh: "marker_head s = Some ys"
    and cap: "cap = takeWhile (\<lambda>c. c \<noteq> NL) (dropWhile is_space ys)"
    and r: "r = dropWhile (\<lambda>c. c \<noteq> NL) (dropWhile is_space ys)"
    by (auto simp: spec_marker_at_def Let_def split: option.splits)
  from marker_head_decomp [OF mh] obtain ds w where s: "s = NL # ds @ CHR ''.'' # w # ys"
    and ds: "ds \<noteq> []" "list_all is_digit ds" and w: "is_space w"
    by blast
  have "ys = takeWhile is_space ys @ cap @ r"
    unfolding cap r by simp
  then have "s = NL # ds @ CHR ''.'' # (w # takeWhile is_space ys) @ cap @ r"
    using s by simp
  moreover have "list_all is_space (w # takeWhile is_space ys)"
    using w by (auto simp: list_all_iff dest: set_takeWhileD)
  moreover have "NL \<notin> set cap"
    unfolding cap by (auto dest: set_takeWhileD)
  moreover have "r = [] \<or> hd r = NL"
    unfolding r using hd_dropWhile [of "\<lambda>c. c \<noteq> NL" "dropWhile is_space ys"] by blast
  ultimately show ?thesis using ds by blast
qed

lemma spec_scan_mem:
  "x \<in> set (spec_scan s) \<Longrightarrow> \<exists>pre m r. s = pre @ m \<and> spec_marker_at m = Some (x, r)"
proof (induction s rule: spec_scan.induct)
  case (1 s)
  show ?case
  proof (cases "spec_marker_at s")
    case None
    show ?thesis
    proof (cases s)
      case Nil
      with None "1.prems" show ?thesis
        by (subst (asm) spec_scan.simps) simp
    next
      case (Cons c cs)
      with None "1.prems" have "x \<in> set (spec_scan cs)"
        by (subst (asm) spec_scan.simps) simp
      with "1.IH"(1) [of c cs] None Cons obtain pre m r where
        "cs = pre @ m" "spec_marker_at m = Some (x, r)" by auto
      then have "s = (c # pre) @ m \<and> spec_marker_at m = Some (x, r)"
        using Cons by simp
      then show ?thesis by blast
    qed
  next
    case (Some a)
    obtain cap r where a: "a = (cap, r)" by (cases a)
    from "1.prems" Some a have "x = cap \<or> x \<in> set (spec_scan r)"
      by (subst (asm) spec_scan.simps) auto
    then show ?thesis
    proof
      assume "x = cap"
      with Some a have "s = [] @ s \<and> spec_marker_at s = Some (x, r)" by simp
      then show ?thesis by blast
    next
      assume "x \<in> set (spec_scan r)"
      then have "\<exists>pre m r'. r = pre @ m \<and> spec_marker_at m = Some (x, r')"
        by (rule "1.IH"(2) [OF Some a [symmetric]])
      then obtain pre m r' where
        m: "r = pre @ m" "spec_marker_at m = Some (x, r')" by blast
      from spec_marker_at_decomp [of s cap r] Some a obtain ds ws where
        "s = NL # ds @ CHR ''.'' # ws @ cap @ r" by auto
      then have "s = (NL # ds @ CHR ''.'' # ws @ cap) @ r" by simp
      then obtain front where "s = front @ r" ..
      with m have "s = (front @ pre) @ m \<and> spec_marker_at m = Some (x, r')" by simp
      then show ?thesis by blast
    qed
  qed
qed

lemma set_rstrip: "set (rstrip s) \<subseteq> set s"
  unfolding rstrip_def using set_dropWhileD [of _ is_space "rev s"] by auto

lemma extract_listings_scan: "extract_listings t = map rstrip (spec_scan t)"
  by (simp add: extract_listings_def findall_def findall_from_marker)

lemma spec_scan_Nil_iff: "(spec_scan s = []) = (\<forall>n. spec_marker_at (drop n s) = None)"
proof (induction s rule: spec_scan.induct)
  case (1 s)
  show ?case
  proof (cases "spec_marker_at s")
    case (Some a)
    then have "spec_scan s \<noteq> []"
      by (subst spec_scan.simps) (simp split: prod.splits)
    moreover have "\<not> (\<forall>n. spec_marker_at (drop n s) = None)"
    proof
      assume "\<forall>n. spec_marker_at (drop n s) = None"
      then have "spec_marker_at (drop 0 s) = None" by (rule spec)
      with Some show False by simp
    qed
    ultimately show ?thesis by simp
  next
    case None
    show ?thesis
    proof (cases s)
      case Nil
      with None show ?thesis by (subst spec_scan.simps) simp
    next
      case (Cons c cs)
      have "(spec_scan s = []) = (spec_scan cs = [])"
        using None Cons by (subst spec_scan.simps) simp
      also have "\<dots> = (\<forall>n. spec_marker_at (drop n cs) = None)"
        using "1.IH"(1) [of c cs] None Cons by simp
      also have "\<dots> = (\<forall>n. spec_marker_at (drop n s) = None)"
      proof
        assume h: "\<forall>n. spec_marker_at (drop n cs) = None"
        show "\<forall>n. spec_marker_at (drop n s) = None"
        proof
          fix n show "spec_marker_at (drop n s) = None"
            using h None Cons by (cases n) auto
        qed
      next
        assume h: "\<forall>n. spec_marker_at (drop n s) = None"
        show "\<forall>n. spec_marker_at (drop n cs) = None"
        proof
          fix n show "spec_marker_at (drop n cs) = None"
            using h [rule_format, of "Suc n"] Cons by simp
        qed
      qed
      finally show ?thesis .
    qed
  qed
qed

lemma match_all_Nil_iff: "(match_all marker_pattern s = []) = (spec_marker_at s = None)"
proof (cases "match_all marker_pattern s")
  case Nil
  then show ?thesis using first_match_marker [of s] by (simp add: first_match_def)
next
  case (Cons m ms)
  then have "spec_marker_at s = Some m"
    using first_match_marker [of s] by (simp add: first_match_def)
  with Cons show ?thesis by simp
qed


lemma rstrip_trims:
  "\<exists>trail. s = rstrip s @ trail \<and> list_all is_space trail \<and>
     (rstrip s = [] \<or> \<not> is_space (last (rstrip s)))"
proof -
  let ?t = "rev (takeWhile is_space (rev s))"
  have "rstrip s @ ?t = rev (takeWhile is_space (rev s) @ dropWhile is_space (rev s))"
    unfolding rstrip_def by (simp only: rev_append)
  also have "\<dots> = rev (rev s)" by (simp only: takeWhile_dropWhile_id)
  also have "\<dots> = s" by simp
  finally have a: "s = rstrip s @ ?t" by (rule sym)
  have b: "list_all is_space ?t"
    by (auto simp: list_all_iff dest: set_takeWhileD)
  have c: "rstrip s = [] \<or> \<not> is_space (last (rstrip s))"
  proof (cases "dropWhile is_space (rev s)")
    case Nil
    then show ?thesis by (simp add: rstrip_def)
  next
    case (Cons y ys)
    then have "\<not> is_space y"
      using hd_dropWhile [of is_space "rev s"] by simp
    with Cons show ?thesis by (simp add: rstrip_def)
  qed
  from a b c show ?thesis by blast
qed

lemma spec_marker_at_run_end:
  assumes "spec_marker_at s = Some (cap, r)"
  shows "(cap = [] \<or> \<not> is_space (hd cap)) \<and> (r = [] \<or> (hd r = NL \<and> cap \<noteq> []))"
proof -
  from assms obtain ys where
    cap: "cap = takeWhile (\<lambda>c. c \<noteq> NL) (dropWhile is_space ys)"
    and r: "r = dropWhile (\<lambda>c. c \<noteq> NL) (dropWhile is_space ys)"
    by (auto simp: spec_marker_at_def Let_def split: option.splits)
  let ?line = "dropWhile is_space ys"
  have nl: "is_space NL" by (simp add: is_space_def NL_def)
  have line: "?line = [] \<or> \<not> is_space (hd ?line)"
    using hd_dropWhile [of is_space ys] by blast
  have a: "cap = [] \<or> \<not> is_space (hd cap)"
  proof (cases ?line)
    case Nil
    show ?thesis unfolding cap Nil by simp
  next
    case (Cons y zs)
    with line have "\<not> is_space y" by simp
    with Cons show ?thesis by (simp add: cap)
  qed
  have b: "r = [] \<or> (hd r = NL \<and> cap \<noteq> [])"
  proof (cases "r = []")
    case True
    then show ?thesis by simp
  next
    case False
    then have h: "hd r = NL"
      unfolding r using hd_dropWhile [of "\<lambda>c. c \<noteq> NL" ?line] by blast
    have "cap \<noteq> []"
    proof
      assume "cap = []"
      then have "?line = r" using takeWhile_dropWhile_id [of "\<lambda>c. c \<noteq> NL" ?line]
        unfolding cap r by simp
      with False h line nl show False by simp
    qed
    with h show ?thesis by simp
  qed
  from a b show ?thesis by blast
qed


subsection \<open>Listing extraction\<close>

text \<open>
  C4 (as amended): the whitespace after the period is any whitespace, newlines
  included, so the captured text can lie on a later line than the marker.  Every
  extracted string \<open>x\<close> is free of newlines and comes from an occurrence newline,
  digits \<open>ds\<close>, period, whitespace \<open>ws\<close>, \<open>cap\<close> in the input, where \<open>cap\<close>
  starts where the whitespace run ends (it is empty or starts with a character that
  is not whitespace), has no newline, and is followed by a newline or by the end of
  the input (an empty \<open>cap\<close> only by the end); \<open>x\<close> is \<open>cap\<close> without its trailing
  whitespace: \<open>cap\<close> is \<open>x\<close> followed by whitespace only, and \<open>x\<close> is empty or ends
  with a character that is not whitespace.  At most one line is captured for a marker.
\<close>

theorem extract_listings_one_line_after_whitespace:
  "\<forall>x \<in> set (extract_listings t).
     NL \<notin> set x \<and>
     (\<exists>pre ds ws cap rest trail.
        t = pre @ NL # ds @ CHR ''.'' # ws @ cap @ rest \<and>
        ds \<noteq> [] \<and> list_all is_digit ds \<and> ws \<noteq> [] \<and> list_all is_space ws \<and>
        (cap = [] \<or> \<not> is_space (hd cap)) \<and> NL \<notin> set cap \<and>
        (rest = [] \<or> (hd rest = NL \<and> cap \<noteq> [])) \<and>
        cap = x @ trail \<and> list_all is_space trail \<and> (x = [] \<or> \<not> is_space (last x)))"
proof
  fix x assume "x \<in> set (extract_listings t)"
  then obtain cap where cap: "cap \<in> set (spec_scan t)" and x: "x = rstrip cap"
    by (auto simp: extract_listings_scan)
  from spec_scan_mem [OF cap] obtain pre m r where t: "t = pre @ m"
    and m: "spec_marker_at m = Some (cap, r)" by blast
  from spec_marker_at_decomp [OF m] obtain ds ws where
    d: "m = NL # ds @ CHR ''.'' # ws @ cap @ r" "ds \<noteq> []" "list_all is_digit ds"
       "ws \<noteq> []" "list_all is_space ws" "NL \<notin> set cap"
    by blast
  from spec_marker_at_run_end [OF m] have
    e: "cap = [] \<or> \<not> is_space (hd cap)" "r = [] \<or> (hd r = NL \<and> cap \<noteq> [])"
    by blast+
  from rstrip_trims [of cap] x obtain trail where
    tr: "cap = x @ trail" "list_all is_space trail" "x = [] \<or> \<not> is_space (last x)"
    by blast
  have "NL \<notin> set x" using d(6) set_rstrip [of cap] x by blast
  moreover have "t = pre @ NL # ds @ CHR ''.'' # ws @ cap @ r" using t d(1) by simp
  ultimately show "NL \<notin> set x \<and>
     (\<exists>pre ds ws cap rest trail.
        t = pre @ NL # ds @ CHR ''.'' # ws @ cap @ rest \<and>
        ds \<noteq> [] \<and> list_all is_digit ds \<and> ws \<noteq> [] \<and> list_all is_space ws \<and>
        (cap = [] \<or> \<not> is_space (hd cap)) \<and> NL \<notin> set cap \<and>
        (rest = [] \<or> (hd rest = NL \<and> cap \<noteq> [])) \<and>
        cap = x @ trail \<and> list_all is_space trail \<and> (x = [] \<or> \<not> is_space (last x)))"
    using d(2-6) e tr by blast
qed

text \<open>
  C4, as the claim states it, fails at the text \<^verbatim>\<open>\n1.\nfoo\<close>: the whitespace
  after the period is the newline, the extracted string \<open>foo\<close> is the line after
  the marker, and no line of the text is a marker followed by this payload.
\<close>

theorem extract_listings_capture_on_later_line:
  "extract_listings ''\<newline>1.\<newline>foo'' = [''foo''] \<and>
   \<not> taken_from_marker_line ''\<newline>1.\<newline>foo''"
  by code_simp

text \<open>The amended statement at the same text.\<close>

theorem extract_listings_one_line_after_whitespace_witness:
  "NL \<notin> set ''foo'' \<and>
   (\<exists>pre ds ws cap rest trail.
      ''\<newline>1.\<newline>foo'' = pre @ NL # ds @ CHR ''.'' # ws @ cap @ rest \<and>
      ds \<noteq> [] \<and> list_all is_digit ds \<and> ws \<noteq> [] \<and> list_all is_space ws \<and>
      (cap = [] \<or> \<not> is_space (hd cap)) \<and> NL \<notin> set cap \<and>
      (rest = [] \<or> (hd rest = NL \<and> cap \<noteq> [])) \<and>
      cap = ''foo'' @ trail \<and> list_all is_space trail \<and>
      (''foo'' = [] \<or> \<not> is_space (last ''foo'')))"
proof -
  have "extract_listings ''\<newline>1.\<newline>foo'' = [''foo'']" by code_simp
  then have "''foo'' \<in> set (extract_listings ''\<newline>1.\<newline>foo'')" by simp
  with extract_listings_one_line_after_whitespace [of "''\<newline>1.\<newline>foo''"]
  show ?thesis by (rule bspec)
qed

text \<open>
  C5: \<open>extract_listings\<close> returns the captured texts of the non-overlapping
  occurrences of the marker (newline, digits, period, whitespace, rest of the line)
  from left to right, each passed through \<open>rstrip\<close>; \<open>rstrip\<close> removes exactly the
  trailing whitespace (what it drops is whitespace, and what it keeps is empty or
  ends with a character that is not whitespace); the result is the empty list exactly
  when the pattern matches nowhere in the text; the two examples of the
  specification evaluate as stated, and so does a text whose items end in blanks, a
  tab and a carriage return.
\<close>

theorem extract_listings_scan_markers:
  "extract_listings t = map rstrip (spec_scan t) \<and>
   (\<forall>s. \<exists>trail. s = rstrip s @ trail \<and> list_all is_space trail \<and>
      (rstrip s = [] \<or> \<not> is_space (last (rstrip s)))) \<and>
   ((extract_listings t = []) = (\<forall>n. match_all marker_pattern (drop n t) = [])) \<and>
   extract_listings ''\<newline>1. Alpha\<newline>2. Beta\<newline>3. Gamma'' = [''Alpha'', ''Beta'', ''Gamma''] \<and>
   extract_listings ''1. Alpha\<newline>2. Beta'' = [''Beta''] \<and>
   extract_listings (''\<newline>1. Alpha  '' @ [CHR 0x09] @ ''\<newline>2. Beta '' @ [CHR 0x0D]) =
     [''Alpha'', ''Beta'']"
proof -
  have a: "extract_listings ''\<newline>1. Alpha\<newline>2. Beta\<newline>3. Gamma'' = [''Alpha'', ''Beta'', ''Gamma'']"
    by code_simp
  have b: "extract_listings ''1. Alpha\<newline>2. Beta'' = [''Beta'']"
    by code_simp
  have b': "extract_listings (''\<newline>1. Alpha  '' @ [CHR 0x09] @ ''\<newline>2. Beta '' @ [CHR 0x0D]) =
     [''Alpha'', ''Beta'']"
    by code_simp
  have c: "(extract_listings t = []) = (\<forall>n. match_all marker_pattern (drop n t) = [])"
    by (simp add: extract_listings_scan spec_scan_Nil_iff match_all_Nil_iff)
  have d: "\<forall>s. \<exists>trail. s = rstrip s @ trail \<and> list_all is_space trail \<and>
      (rstrip s = [] \<or> \<not> is_space (last (rstrip s)))"
    using rstrip_trims by blast
  show ?thesis using a b b' c d extract_listings_scan by blast
qed


subsection \<open>Dataset assembly\<close>

text \<open>
  C2: \<open>create_ds\<close> raises the length-mismatch \<open>ValueError\<close> exactly when the two
  lists differ in length (and raises nothing else), and returns a dict exactly when the
  lengths are equal.
\<close>

theorem create_ds_raises_iff_length_differs:
  "((create_ds instruction output = Inl e) =
      (length instruction \<noteq> length output \<and> e = length_mismatch)) \<and>
   ((\<exists>d. create_ds instruction output = Inr d) = (length instruction = length output))"
  by (auto simp: create_ds_def)

lemma map_of_dict_setitem: "map_of (dict_setitem d k v) = (map_of d)(k \<mapsto> v)"
  by (induction d) auto

lemma keys_dict_setitem:
  "map fst (dict_setitem d k v) = (if k \<in> set (map fst d) then map fst d else map fst d @ [k])"
proof (induction d)
  case Nil
  then show ?case by simp
next
  case (Cons p d)
  obtain k' v' where p: "p = (k', v')" by (cases p)
  show ?case
  proof (cases "k' = k")
    case True
    with p show ?thesis by simp
  next
    case False
    with p Cons show ?thesis by simp
  qed
qed

lemma distinct_dict_setitem:
  "distinct (map fst d) \<Longrightarrow> distinct (map fst (dict_setitem d k v))"
  by (simp add: keys_dict_setitem)

lemma dict_update_all_snoc:
  "dict_update_all d (ps @ [(k, v)]) = dict_setitem (dict_update_all d ps) k v"
  by (simp add: dict_update_all_def)

lemma distinct_dict_update_all:
  "distinct (map fst d) \<Longrightarrow> distinct (map fst (dict_update_all d ps))"
proof (induction ps rule: rev_induct)
  case Nil
  then show ?case by (simp add: dict_update_all_def)
next
  case (snoc p ps)
  obtain k v where p: "p = (k, v)" by (cases p)
  show ?case unfolding p dict_update_all_snoc
    using snoc by (intro distinct_dict_setitem) simp
qed

lemma keys_dict_update_all:
  "set (map fst (dict_update_all d ps)) = set (map fst d) \<union> set (map fst ps)"
proof (induction ps rule: rev_induct)
  case Nil
  then show ?case by (simp add: dict_update_all_def)
next
  case (snoc p ps)
  obtain k v where p: "p = (k, v)" by (cases p)
  show ?case unfolding p dict_update_all_snoc
    using snoc by (auto simp: keys_dict_setitem)
qed

lemma dict_update_all_last_wins:
  assumes "j < length ps"
    and "\<forall>j'. j < j' \<and> j' < length ps \<longrightarrow> fst (ps ! j') \<noteq> fst (ps ! j)"
  shows "map_of (dict_update_all d ps) (fst (ps ! j)) = Some (snd (ps ! j))"
  using assms
proof (induction ps rule: rev_induct)
  case Nil
  then show ?case by simp
next
  case (snoc p ps)
  obtain k v where p: "p = (k, v)" by (cases p)
  show ?case
  proof (cases "j = length ps")
    case True
    then show ?thesis
      unfolding p dict_update_all_snoc by (simp add: map_of_dict_setitem)
  next
    case False
    with snoc.prems(1) have j: "j < length ps" by simp
    have later: "\<forall>j'. j < j' \<and> j' < length ps \<longrightarrow> fst (ps ! j') \<noteq> fst (ps ! j)"
    proof (intro allI impI)
      fix j' assume h: "j < j' \<and> j' < length ps"
      then have "fst ((ps @ [p]) ! j') \<noteq> fst ((ps @ [p]) ! j)"
        using snoc.prems(2) [rule_format, of j'] by simp
      with h j show "fst (ps ! j') \<noteq> fst (ps ! j)" by (simp add: nth_append)
    qed
    have "fst ((ps @ [p]) ! length ps) \<noteq> fst ((ps @ [p]) ! j)"
      using snoc.prems(2) [rule_format, of "length ps"] j by simp
    then have kj: "k \<noteq> fst (ps ! j)" using j p by (simp add: nth_append)
    have "map_of (dict_update_all d ps) (fst (ps ! j)) = Some (snd (ps ! j))"
      using snoc.IH [OF j later] .
    with kj j show ?thesis
      unfolding p dict_update_all_snoc by (simp add: map_of_dict_setitem nth_append)
  qed
qed

lemma dict_of_update_all: "dict_of ps = dict_update_all [] ps"
  by (simp add: dict_of_def dict_update_all_def)

lemma dict_of_zip_len:
  assumes "length ks = length vs"
  shows "dict_len (dict_of (zip ks vs)) = card (set ks)"
proof -
  have d: "distinct (map fst (dict_of (zip ks vs)))"
    unfolding dict_of_update_all by (rule distinct_dict_update_all) simp
  have "set (map fst (dict_of (zip ks vs))) = set ks"
    unfolding dict_of_update_all keys_dict_update_all using assms by simp
  then have "card (set ks) = length (map fst (dict_of (zip ks vs)))"
    using distinct_card [OF d] by simp
  then show ?thesis by (simp add: dict_len_def)
qed

text \<open>
  C6: for lists of equal length \<open>N\<close>, \<open>create_ds\<close> returns a dict with distinct
  keys and at most \<open>N\<close> entries, exactly \<open>N\<close> if and only if the instructions are
  distinct; the value kept for an instruction is the output at its last occurrence.
\<close>

theorem create_ds_entries_last_write_wins:
  assumes "length instruction = length output"
  shows "\<exists>d. create_ds instruction output = Inr d \<and>
           distinct (dict_keys d) \<and>
           dict_len d \<le> length instruction \<and>
           ((dict_len d = length instruction) = distinct instruction) \<and>
           (\<forall>j < length instruction.
              (\<forall>j'. j < j' \<and> j' < length instruction \<longrightarrow> instruction ! j' \<noteq> instruction ! j) \<longrightarrow>
              dict_get d (instruction ! j) = Some (output ! j))"
proof -
  let ?d = "dict_of (zip instruction output)"
  have r: "create_ds instruction output = Inr ?d"
    using assms by (simp add: create_ds_def)
  have dk: "distinct (dict_keys ?d)"
    unfolding dict_keys_def dict_of_update_all by (rule distinct_dict_update_all) simp
  have len: "dict_len ?d = card (set instruction)"
    using assms by (rule dict_of_zip_len)
  have le: "dict_len ?d \<le> length instruction"
    unfolding len by (rule card_length)
  have eq: "(dict_len ?d = length instruction) = distinct instruction"
    unfolding len using card_distinct distinct_card by blast
  have last: "\<forall>j < length instruction.
      (\<forall>j'. j < j' \<and> j' < length instruction \<longrightarrow> instruction ! j' \<noteq> instruction ! j) \<longrightarrow>
      dict_get ?d (instruction ! j) = Some (output ! j)"
  proof (intro allI impI)
    fix j assume j: "j < length instruction"
      and h: "\<forall>j'. j < j' \<and> j' < length instruction \<longrightarrow> instruction ! j' \<noteq> instruction ! j"
    let ?ps = "zip instruction output"
    have jl: "j < length ?ps" using j assms by simp
    have "\<forall>j'. j < j' \<and> j' < length ?ps \<longrightarrow> fst (?ps ! j') \<noteq> fst (?ps ! j)"
      using h j assms by simp
    from dict_update_all_last_wins [OF jl this, of "[]"]
    show "dict_get ?d (instruction ! j) = Some (output ! j)"
      using j assms by (simp add: dict_get_def dict_of_update_all)
  qed
  from r dk le eq last show ?thesis by blast
qed

theorem create_ds_entries_last_write_wins_witness:
  "length [''a'', ''b'', ''a''] = length [''1'', ''2'', ''3''] \<and>
   create_ds [''a'', ''b'', ''a''] [''1'', ''2'', ''3''] = Inr [(''a'', ''3''), (''b'', ''2'')] \<and>
   (\<exists>d. create_ds [''a'', ''b'', ''a''] [''1'', ''2'', ''3''] = Inr d \<and>
      dict_len d \<le> 3 \<and> dict_len d \<noteq> 3 \<and> dict_get d ''a'' = Some ''3'')"
proof -
  have h: "length [''a'', ''b'', ''a''] = length [''1'', ''2'', ''3'']" by simp
  from create_ds_entries_last_write_wins [OF h] obtain d where
    d: "create_ds [''a'', ''b'', ''a''] [''1'', ''2'', ''3''] = Inr d"
    and "dict_len d \<le> length [''a'', ''b'', ''a'']" by blast
  have e: "create_ds [''a'', ''b'', ''a''] [''1'', ''2'', ''3''] = Inr [(''a'', ''3''), (''b'', ''2'')]"
    by (simp add: create_ds_def dict_of_def)
  with d have "d = [(''a'', ''3''), (''b'', ''2'')]" by simp
  with d e h show ?thesis by (simp add: dict_len_def dict_get_def)
qed

lemma strftime_example_now: "strftime example_now = ''20250304_050607''"
  by (simp add: strftime_def example_now_def zero_pad_def digit_char_def upt_rec)

lemma foldl_append_records:
  "foldl (\<lambda>acc (k, v). acc @ [f k v]) acc ps = acc @ map (\<lambda>(k, v). f k v) ps"
  by (induction ps arbitrary: acc) (auto split: prod.splits)

lemma transformed_data_map:
  "transformed_data dataset =
     map (\<lambda>(k, v). \<lparr>alpaca_instruction = k, alpaca_input = [], alpaca_output = v\<rparr>)
       (dict_items dataset)"
  unfolding transformed_data_def
  using foldl_append_records
    [of "\<lambda>k v. \<lparr>alpaca_instruction = k, alpaca_input = [], alpaca_output = v\<rparr>" "[]"
        "dict_items dataset"]
  by simp

text \<open>
  C7: the record list of \<open>transform_alpaca_format\<close> has one record for each entry of
  the mapping, in iteration order, with the key as instruction, the value as output
  and the empty string as input; the call returns the name
  \<open>transformed_qa_<timestamp>.json\<close> with this list and writes the list to that
  file.  The only other outcome is the \<open>OSError\<close> of a file that cannot be opened
  for writing.
\<close>

theorem transform_alpaca_format_records:
  "transformed_data dataset =
     map (\<lambda>(k, v). \<lparr>alpaca_instruction = k, alpaca_input = [], alpaca_output = v\<rparr>)
       (dict_items dataset) \<and>
   length (transformed_data dataset) = dict_len dataset \<and>
   transform_alpaca_format dataset now fs =
     (if can_write fs (''transformed_qa_'' @ strftime now @ ''.json'')
      then (Inr (''transformed_qa_'' @ strftime now @ ''.json'', transformed_data dataset),
            fs\<lparr>files := (files fs)(''transformed_qa_'' @ strftime now @ ''.json'' \<mapsto>
                    transformed_data dataset)\<rparr>)
      else (Inl (OSError (''transformed_qa_'' @ strftime now @ ''.json'')), fs))"
proof -
  have a: "transformed_data dataset =
     map (\<lambda>(k, v). \<lparr>alpaca_instruction = k, alpaca_input = [], alpaca_output = v\<rparr>)
       (dict_items dataset)"
    by (rule transformed_data_map)
  have b: "length (transformed_data dataset) = dict_len dataset"
    unfolding a by (simp add: dict_len_def dict_items_def)
  have c: "transform_alpaca_format dataset now fs =
     (if can_write fs (''transformed_qa_'' @ strftime now @ ''.json'')
      then (Inr (''transformed_qa_'' @ strftime now @ ''.json'', transformed_data dataset),
            fs\<lparr>files := (files fs)(''transformed_qa_'' @ strftime now @ ''.json'' \<mapsto>
                    transformed_data dataset)\<rparr>)
      else (Inl (OSError (''transformed_qa_'' @ strftime now @ ''.json'')), fs))"
    by (simp add: transform_alpaca_format_def output_file_def Let_def)
  from a b c show ?thesis by blast
qed

theorem transform_alpaca_format_records_witness:
  "fst (transform_alpaca_format [(''q1'', ''r1''), (''q2'', ''r2'')] example_now empty_fs) =
     Inr (''transformed_qa_20250304_050607.json'',
          [\<lparr>alpaca_instruction = ''q1'', alpaca_input = [], alpaca_output = ''r1''\<rparr>,
           \<lparr>alpaca_instruction = ''q2'', alpaca_input = [], alpaca_output = ''r2''\<rparr>])"
proof -
  have d: "transformed_data [(''q1'', ''r1''), (''q2'', ''r2'')] =
      [\<lparr>alpaca_instruction = ''q1'', alpaca_input = [], alpaca_output = ''r1''\<rparr>,
       \<lparr>alpaca_instruction = ''q2'', alpaca_input = [], alpaca_output = ''r2''\<rparr>]"
    by (simp add: transformed_data_def dict_items_def)
  have w: "can_write empty_fs (''transformed_qa_'' @ strftime example_now @ ''.json'')"
    by (simp add: empty_fs_def)
  from transform_alpaca_format_records
    [of "[(''q1'', ''r1''), (''q2'', ''r2'')]" example_now empty_fs, THEN conjunct2, THEN conjunct2]
  have "fst (transform_alpaca_format [(''q1'', ''r1''), (''q2'', ''r2'')] example_now empty_fs) =
      Inr (''transformed_qa_'' @ strftime example_now @ ''.json'',
           transformed_data [(''q1'', ''r1''), (''q2'', ''r2'')])"
    using w by simp
  then show ?thesis unfolding strftime_example_now d by simp
qed

text \<open>
  C10: on the empty mapping, when the output file can be written,
  \<open>transform_alpaca_format\<close> returns the timestamp-named file name and the empty
  record list.
\<close>

theorem transform_alpaca_format_empty:
  "can_write fs (''transformed_qa_'' @ strftime now @ ''.json'') \<Longrightarrow>
   fst (transform_alpaca_format [] now fs) =
     Inr (''transformed_qa_'' @ strftime now @ ''.json'', [])"
  by (simp add: transform_alpaca_format_def output_file_def transformed_data_def
      dict_items_def Let_def)

theorem transform_alpaca_format_empty_witness:
  "can_write empty_fs (''transformed_qa_'' @ strftime example_now @ ''.json'') \<and>
   fst (transform_alpaca_format [] example_now empty_fs) =
     Inr (''transformed_qa_20250304_050607.json'', [])"
proof -
  have h: "can_write empty_fs (''transformed_qa_'' @ strftime example_now @ ''.json'')"
    by (simp add: empty_fs_def)
  from transform_alpaca_format_empty [OF h] h show ?thesis
    unfolding strftime_example_now by simp
qed

subsection \<open>Generation\<close>

lemma cot_item_results:
  "\<exists>out'. cot_item backend self delay (results, out, w) data =
     (results @ successes [fst (backend (cot_request self data) w)], out',
      snd (backend (cot_request self data) w))"
proof (cases "backend (cot_request self data) w")
  case (Pair r w')
  show ?thesis
  proof (cases r)
    case (Inl e)
    with Pair show ?thesis by (simp add: cot_item_def)
  next
    case (Inr response)
    with Pair show ?thesis
      by (cases "time_sleep delay") (simp_all add: cot_item_def truthy_def)
  qed
qed

lemma cot_fold_results:
  "fst (foldl (cot_item backend self delay) (results, out, w) datas) =
     results @ successes (cot_outcomes backend self datas w)"
proof (induction datas arbitrary: results out w)
  case Nil
  then show ?case by simp
next
  case (Cons data datas)
  obtain r w' where b: "backend (cot_request self data) w = (r, w')"
    by (cases "backend (cot_request self data) w")
  from cot_item_results [of backend self delay results out w data] b
  obtain out' where step: "cot_item backend self delay (results, out, w) data =
      (results @ successes [r], out', w')" by auto
  have split: "successes (r # cot_outcomes backend self datas w') =
      successes [r] @ successes (cot_outcomes backend self datas w')"
    by (cases r) simp_all
  have "fst (foldl (cot_item backend self delay) (results, out, w) (data # datas)) =
      fst (foldl (cot_item backend self delay) (results @ successes [r], out', w') datas)"
    using step by simp
  also have "\<dots> = (results @ successes [r]) @ successes (cot_outcomes backend self datas w')"
    by (rule Cons.IH)
  also have "\<dots> = results @ successes (r # cot_outcomes backend self datas w')"
    unfolding split by simp
  also have "\<dots> = results @ successes (cot_outcomes backend self (data # datas) w)"
    using b by simp
  finally show ?case .
qed

lemma length_cot_outcomes: "length (cot_outcomes backend self datas w) = length datas"
  by (induction datas arbitrary: w) (auto split: prod.splits)

lemma length_successes: "length (successes rs) \<le> length rs"
  by (induction rs rule: successes.induct) auto

text \<open>
  C1: the results of \<open>get_cot_result\<close> are the texts of the successful backend calls
  in the order of the input items, one for each success and nothing for a failure,
  whatever the delay; so there are at most as many results as items, and fewer when
  a call fails (here the item \<open>a\<close>).
\<close>

theorem get_cot_result_keeps_successes_in_order:
  "fst (get_cot_result backend self datas delay w) =
     successes (cot_outcomes backend self datas w) \<and>
   length (cot_outcomes backend self datas w) = length datas \<and>
   length (fst (get_cot_result backend self datas delay w)) \<le> length datas \<and>
   length (fst (get_cot_result quota_backend self [''a'', ''b''] delay ())) < length [''a'', ''b'']"
proof -
  have a: "fst (get_cot_result backend self datas delay w) =
      successes (cot_outcomes backend self datas w)"
    using cot_fold_results [of backend self delay "[]" "[]" w datas]
    by (simp add: get_cot_result_def)
  have b: "length (cot_outcomes backend self datas w) = length datas"
    by (rule length_cot_outcomes)
  have c: "length (fst (get_cot_result backend self datas delay w)) \<le> length datas"
    unfolding a using length_successes [of "cot_outcomes backend self datas w"] b by simp
  have "fst (get_cot_result quota_backend self [''a'', ''b''] delay ()) =
      successes (cot_outcomes quota_backend self [''a'', ''b''] ())"
    using cot_fold_results [of quota_backend self delay "[]" "[]" "()" "[''a'', ''b'']"]
    by (simp add: get_cot_result_def)
  then have d: "length (fst (get_cot_result quota_backend self [''a'', ''b''] delay ())) <
      length [''a'', ''b'']"
    by (simp add: quota_backend_def cot_request_def)
  from a b c d show ?thesis by blast
qed

text \<open>
  C3: on the items \<open>a\<close> and \<open>b\<close>, with a backend that fails on \<open>a\<close>, the events of
  \<open>get_cot_result\<close> are the error message for \<open>a\<close>, the report for \<open>b\<close> and one
  pause: the failed item is not followed by a pause.
\<close>

theorem get_cot_result_no_pause_after_failure:
  "get_cot_result quota_backend example_snail [''a'', ''b''] 5 () =
     ([''<answer>b</answer>''],
      [Print (cot_error ''a'' (BackendError ''quota exceeded'')),
       Print (cot_report ''b'' \<lparr>resp_text = ''<answer>b</answer>'', usage_metadata = ''7''\<rparr>),
       Sleep 5],
      ())"
  by (simp add: get_cot_result_def cot_item_def quota_backend_def cot_request_def
      truthy_def time_sleep_def)

text \<open>
  C8: when the backend call of \<open>searching\<close> raises, \<open>searching\<close> raises nothing; it
  prints the error and returns \<open>None\<close>.
\<close>

theorem searching_swallows_backend_failure:
  assumes "fst (backend (search_request self) w) = Inl e"
  shows "searching backend self w =
     (Inr None, [Print (''Error occurred while searching: '' @ str_exc e)],
      snd (backend (search_request self) w))"
  using assms by (cases "backend (search_request self) w") (simp add: searching_def)

theorem searching_swallows_backend_failure_witness:
  "fst (quota_backend (search_request (example_snail\<lparr>user_query := ''a''\<rparr>)) ()) =
     Inl (BackendError ''quota exceeded'') \<and>
   searching quota_backend (example_snail\<lparr>user_query := ''a''\<rparr>) () =
     (Inr None, [Print ''Error occurred while searching: quota exceeded''], ())"
proof -
  have h: "fst (quota_backend (search_request (example_snail\<lparr>user_query := ''a''\<rparr>)) ()) =
     Inl (BackendError ''quota exceeded'')"
    by (simp add: quota_backend_def search_request_def)
  from searching_swallows_backend_failure
    [of quota_backend "example_snail\<lparr>user_query := ''a''\<rparr>" "()" "BackendError ''quota exceeded''"] h
  show ?thesis by (simp add: quota_backend_def search_request_def)
qed

subsection \<open>Publishing\<close>

text \<open>
  C9: \<open>push_to_hf\<close> raises exactly when \<open>json_path\<close> or \<open>repo_id\<close> is empty, and
  then it raises the \<open>ValueError\<close> of the first empty argument.  When both are
  non-empty it returns normally, whatever the hosting service does: an exception
  of the \<open>try\<close> body is printed, and the state of the service is the one the
  body left.
\<close>

theorem push_to_hf_raises_iff_empty_argument:
  "((\<exists>e. fst (push_to_hf hf json_path repo_id h) = Inl e) = (json_path = [] \<or> repo_id = [])) \<and>
   (json_path = [] \<longrightarrow> push_to_hf hf json_path repo_id h =
      (Inl (ValueError ''The JSON file path must be provided and cannot be empty.''), [], h)) \<and>
   (json_path \<noteq> [] \<and> repo_id = [] \<longrightarrow> push_to_hf hf json_path repo_id h =
      (Inl (ValueError ''The repository ID must be provided and cannot be empty.''), [], h)) \<and>
   (json_path \<noteq> [] \<and> repo_id \<noteq> [] \<longrightarrow>
      fst (push_to_hf hf json_path repo_id h) = Inr () \<and>
      snd (snd (push_to_hf hf json_path repo_id h)) = snd (publish_body hf json_path repo_id h) \<and>
      (\<forall>e. fst (publish_body hf json_path repo_id h) = Inl e \<longrightarrow>
         fst (snd (push_to_hf hf json_path repo_id h)) =
           [Print (''Error occurred while pushing dataset: '' @ str_exc e)]))"
proof -
  obtain r h' where p: "publish_body hf json_path repo_id h = (r, h')"
    by (cases "publish_body hf json_path repo_id h")
  show ?thesis
    by (cases r) (simp_all add: push_to_hf_def p)
qed

theorem push_to_hf_raises_iff_empty_argument_witness:
  "''data.json'' \<noteq> [] \<and> ''user/repo'' \<noteq> [] \<and>
   fst (publish_body offline_hub ''data.json'' ''user/repo'' ()) = Inl (BackendError ''offline'') \<and>
   push_to_hf offline_hub ''data.json'' ''user/repo'' () =
     (Inr (), [Print ''Error occurred while pushing dataset: offline''], ())"
proof -
  have b: "publish_body offline_hub ''data.json'' ''user/repo'' () = (Inl (BackendError ''offline''), ())"
    by (simp add: publish_body_def and_then_def offline_hub_def)
  from push_to_hf_raises_iff_empty_argument [of offline_hub "''data.json''" "''user/repo''" "()"] b
  show ?thesis by (simp add: prod_eq_iff)
qed


end
